theory Spec2Isabelle
  imports Complex_Main
begin

section \<open>Numbers and host values\<close>

text \<open>
  A JavaScript number is modelled as a real or \<open>NaN\<close>. Rounding and the infinities of
  IEEE doubles are left out: the arithmetic below is exact.
\<close>

datatype jsnum = NaN | Num real

fun nplus :: "jsnum \<Rightarrow> jsnum \<Rightarrow> jsnum" where
  "nplus (Num a) (Num b) = Num (a + b)"
| "nplus _ _ = NaN"

fun nminus :: "jsnum \<Rightarrow> jsnum \<Rightarrow> jsnum" where
  "nminus (Num a) (Num b) = Num (a - b)"
| "nminus _ _ = NaN"

text \<open>\<open>Math.max\<close> of two numbers: \<open>NaN\<close> as soon as one argument is \<open>NaN\<close>.\<close>

fun Math_max :: "jsnum \<Rightarrow> jsnum \<Rightarrow> jsnum" where
  "Math_max (Num a) (Num b) = Num (max a b)"
| "Math_max _ _ = NaN"

text \<open>\<open>a < b\<close> on numbers: false as soon as one of them is \<open>NaN\<close>.\<close>

fun nless :: "jsnum \<Rightarrow> jsnum \<Rightarrow> bool" where
  "nless (Num a) (Num b) = (a < b)"
| "nless _ _ = False"

text \<open>
  A JavaScript string is the list of its UTF-16 code units. \<open>js\<close> gives the string of
  a text of 7-bit characters, for the literals of the source and of the examples.
\<close>

type_synonym jsstring = "nat list"

definition js :: "string \<Rightarrow> jsstring" where
  "js s = map of_char s"

text \<open>
  The values the host puts into a column (\<open>PrimitiveValue\<close>), and \<open>undefined\<close>, which
  an array read past its end gives.
\<close>

datatype pvalue = PUndefined | PNull | PBoolean bool | PNumber jsnum | PString jsstring

text \<open>
  What the JavaScript engine and the rendering surface provide and the source only calls:
  the decimal string of a number, the number a string denotes, and the rendered width of
  a text (\<open>getComputedTextLength\<close> of a \<open>tspan\<close> holding it).
\<close>

record runtime =
  numberToString :: "jsnum \<Rightarrow> jsstring"
  stringToNumber :: "jsstring \<Rightarrow> jsnum"
  textLength :: "jsstring \<Rightarrow> real"

text \<open>\<open>Number(v)\<close> and \<open>String(v)\<close>.\<close>

fun toNumber :: "runtime \<Rightarrow> pvalue \<Rightarrow> jsnum" where
  "toNumber rt PUndefined = NaN"
| "toNumber rt PNull = Num 0"
| "toNumber rt (PBoolean b) = Num (if b then 1 else 0)"
| "toNumber rt (PNumber n) = n"
| "toNumber rt (PString s) = stringToNumber rt s"

fun toString :: "runtime \<Rightarrow> pvalue \<Rightarrow> jsstring" where
  "toString rt PUndefined = js ''undefined''"
| "toString rt PNull = js ''null''"
| "toString rt (PBoolean b) = (if b then js ''true'' else js ''false'')"
| "toString rt (PNumber n) = numberToString rt n"
| "toString rt (PString s) = s"

text \<open>\<open>xs[i]\<close> on a JavaScript array: \<open>undefined\<close> out of range.\<close>

definition at_index :: "pvalue list \<Rightarrow> nat \<Rightarrow> pvalue" where
  "at_index xs i = (if i < length xs then xs ! i else PUndefined)"

text \<open>
  A fixed-metrics measuring stub: every character is 10 pixels wide. Its conversions are
  stubs too: it takes every string as not a number and prints every number as the empty
  string. The sample inputs below have strings as categories and numbers as measures, but
  for the one measure \<open>n/a\<close>, which is no number in JavaScript either.
\<close>

definition fixed_metrics :: runtime where
  "fixed_metrics =
     \<lparr>numberToString = (\<lambda>n. []), stringToNumber = (\<lambda>s. NaN),
      textLength = (\<lambda>s. 10 * real (length s))\<rparr>"

section \<open>The update options\<close>

record viewport =
  vp_width :: real
  vp_height :: real

record column =
  col_values :: "pvalue list"

record categorical =
  categories :: "column list option"
  cat_values :: "column list option"

record dataview =
  dv_categorical :: "categorical option"

record update_options =
  opt_viewport :: viewport
  dataViews :: "dataview list"

record datapoint =
  Categories :: jsstring
  Value1 :: jsnum
  Value2 :: jsnum

datatype error = TypeError

section \<open>Constants of the visual\<close>

definition margin_left :: real where "margin_left = 100"
definition margin_right :: real where "margin_right = 30"
definition margin_top :: real where "margin_top = 60"
definition margin_bottom :: real where "margin_bottom = 30"
definition circleRadius :: real where "circleRadius = 14"
definition strokeWidth :: real where "strokeWidth = 5 / 2"

definition colourPalette :: "string list" where
  "colourPalette =
     [''#0079EB'', ''#375071'', ''#A83DA4'', ''#4289B3'',
      ''#9B7003'', ''#293241'', ''#006560'', ''#4B195D'']"

section \<open>The scales\<close>

text \<open>
  Modelled from the spec: \<open>d3.max\<close> is library code that is not under src/. It gives
  the greatest of the values. As the library documents, it passes over the values that are
  \<open>NaN\<close> and gives \<open>undefined\<close> (here \<open>None\<close>) when no value is left, which
  the non-null assertion at the call admits.
\<close>

fun d3_max :: "jsnum list \<Rightarrow> real option" where
  "d3_max [] = None"
| "d3_max (NaN # vs) = d3_max vs"
| "d3_max (Num v # vs) = (case d3_max vs of None \<Rightarrow> Some v | Some m \<Rightarrow> Some (max v m))"

text \<open>The upper bound of the horizontal domain; \<open>undefined\<close> is coerced to \<open>NaN\<close>.\<close>

definition maxValue :: "datapoint list \<Rightarrow> jsnum" where
  "maxValue data =
     (case d3_max (map (\<lambda>d. Math_max (Value1 d) (Value2 d)) data) of
        None \<Rightarrow> NaN
      | Some m \<Rightarrow> Num m)"

text \<open>
  The position \<open>d3.scaleLinear\<close> gives to every value when its domain is collapsed to
  one point: the library then normalises every value to one half, so that the scale gives
  the midpoint of its range (and not its start, as the spec has it).
\<close>

definition collapsed_position :: real where
  "collapsed_position = 1 / 2"

text \<open>
  Modelled from the spec: \<open>d3.scaleLinear\<close> is library code that is not under src/. The
  scale maps \<open>d0\<close> to \<open>r0\<close> and \<open>d1\<close> to \<open>r1\<close> and is linear in between and beyond (it
  does not clamp); a \<open>NaN\<close> in the domain or as the argument gives \<open>NaN\<close>. On a
  collapsed domain it is constant, at \<open>collapsed_position\<close> of its range.
\<close>

fun scaleLinear :: "jsnum \<Rightarrow> jsnum \<Rightarrow> real \<Rightarrow> real \<Rightarrow> jsnum \<Rightarrow> jsnum" where
  "scaleLinear (Num d0) (Num d1) r0 r1 (Num x) =
     (let t = (if d1 - d0 = 0 then collapsed_position else (x - d0) / (d1 - d0))
      in Num (r0 * (1 - t) + r1 * t))"
| "scaleLinear _ _ _ _ _ = NaN"

definition xScale :: "datapoint list \<Rightarrow> real \<Rightarrow> jsnum \<Rightarrow> jsnum" where
  "xScale data width =
     scaleLinear (Num 0) (maxValue data) margin_left (width - margin_right)"

text \<open>
  The domain of an ordinal scale keeps the first occurrence of each value, in input order.
\<close>

definition insert_new :: "'a list \<Rightarrow> 'a \<Rightarrow> 'a list" where
  "insert_new acc x = (if x \<in> set acc then acc else acc @ [x])"

definition ordinal_domain :: "'a list \<Rightarrow> 'a list" where
  "ordinal_domain xs = foldl insert_new [] xs"

fun index_of :: "'a list \<Rightarrow> 'a \<Rightarrow> nat option" where
  "index_of [] x = None"
| "index_of (y # ys) x =
     (if y = x then Some 0 else map_option Suc (index_of ys x))"

text \<open>
  Modelled from the spec: \<open>d3.scalePoint\<close> is library code that is not under src/. It
  places the \<open>n\<close> distinct values of its domain at evenly spaced positions from one end
  of the range to the other, both ends included; a single value is placed at the midpoint;
  a value outside the domain has no position.
\<close>

definition scalePoint :: "jsstring list \<Rightarrow> real \<Rightarrow> real \<Rightarrow> jsstring \<Rightarrow> real option" where
  "scalePoint domain r0 r1 c =
     (let dom = ordinal_domain domain;
          n = length dom;
          reverse = r1 < r0;
          start = (if reverse then r1 else r0);
          stop = (if reverse then r0 else r1);
          step = (stop - start) / max 1 (real n - 1);
          start' = start + (stop - start - step * (real n - 1)) * (1 / 2);
          vals = map (\<lambda>i. start' + step * real i) [0..<n]
      in map_option (\<lambda>i. (if reverse then rev vals else vals) ! i) (index_of dom c))"

definition yScale :: "datapoint list \<Rightarrow> real \<Rightarrow> jsstring \<Rightarrow> real option" where
  "yScale data height =
     scalePoint (map Categories data) margin_top (height - margin_bottom)"

text \<open>
  Modelled from the spec: \<open>d3.scaleOrdinal\<close> is library code that is not under src/. A
  category gets the palette colour at its index in the domain, the indices cycling once
  the categories outnumber the palette; a value outside the domain is appended to it.
\<close>

definition scaleOrdinal :: "jsstring list \<Rightarrow> string list \<Rightarrow> jsstring \<Rightarrow> string" where
  "scaleOrdinal domain rng c =
     (let dom = ordinal_domain domain;
          i = (case index_of dom c of None \<Rightarrow> length dom | Some i \<Rightarrow> i)
      in rng ! (i mod length rng))"

definition colourScale :: "datapoint list \<Rightarrow> jsstring \<Rightarrow> string" where
  "colourScale data = scaleOrdinal (map Categories data) colourPalette"

section \<open>Text wrapping\<close>

text \<open>
  The code units the regular expression \<open>\s\<close> matches: the white space and the line
  terminators of the language. These are tab, line feed, vertical tab, form feed, carriage
  return and space; U+00A0, U+1680, U+2000 to U+200A, U+202F, U+205F and U+3000 (the
  space separators); U+2028 and U+2029; and U+FEFF.
\<close>

definition is_space :: "nat \<Rightarrow> bool" where
  "is_space c \<longleftrightarrow>
     c \<in> set ([9, 10, 11, 12, 13, 32, 160, 5760] @ [8192..<8203] @
               [8232, 8233, 8239, 8287, 12288, 65279])"

text \<open>
  \<open>text.split(/\s+/)\<close>: the pieces between maximal runs of whitespace. A text that
  starts (ends) with whitespace gives an empty first (last) piece, and the empty text gives
  one empty piece.
\<close>

fun split_ws :: "jsstring \<Rightarrow> jsstring list" where
  "split_ws [] = [[]]"
| "split_ws (c # cs) =
     (if is_space c then
        (if cs \<noteq> [] \<and> is_space (hd cs) then split_ws cs else [] # split_ws cs)
      else (case split_ws cs of [] \<Rightarrow> [[c]] | w # ws \<Rightarrow> (c # w) # ws))"

text \<open>\<open>line.join(" ")\<close>; 32 is the code unit of the space.\<close>

fun join :: "jsstring list \<Rightarrow> jsstring" where
  "join [] = []"
| "join [w] = w"
| "join (w # ws) = w @ 32 # join ws"

record tspan =
  tspan_x :: real
  tspan_dy :: real
  tspan_text :: jsstring

definition lineHeight :: real where "lineHeight = 6 / 5"

text \<open>
  The loop of \<open>wrap\<close>. \<open>ws\<close> is the stack of words with its top first, \<open>line\<close> the
  words of the current line, \<open>tsp\<close> the current \<open>tspan\<close> and \<open>out\<close> the \<open>tspan\<close>s
  appended to the text before it. The loop ends when the stack is empty, and also when
  the popped word is the empty string, which is falsy.
\<close>

fun wrap_loop ::
  "(jsstring \<Rightarrow> real) \<Rightarrow> real \<Rightarrow> jsstring list \<Rightarrow> jsstring list \<Rightarrow> tspan \<Rightarrow> tspan list
     \<Rightarrow> tspan list"
where
  "wrap_loop m width [] line tsp out = out @ [tsp]"
| "wrap_loop m width (word # ws) line tsp out =
     (if word = [] then out @ [tsp]
      else
        (let line1 = line @ [word];
             tsp1 = tsp\<lparr>tspan_text := join line1\<rparr>
         in if m (tspan_text tsp1) > width then
              wrap_loop m width ws [word]
                \<lparr>tspan_x = 0, tspan_dy = lineHeight, tspan_text = word\<rparr>
                (out @ [tsp1\<lparr>tspan_text := join (butlast line1)\<rparr>])
            else wrap_loop m width ws line1 tsp1 out))"

text \<open>
  \<open>wrap\<close> on one text element: the \<open>tspan\<close>s that replace its content. The words are
  reversed and then popped from the end, so the loop sees \<open>rev words\<close>.
\<close>

definition wrap :: "(jsstring \<Rightarrow> real) \<Rightarrow> real \<Rightarrow> jsstring \<Rightarrow> tspan list" where
  "wrap m width text =
     (let words = rev (split_ws text)
      in wrap_loop m width (rev words) []
           \<lparr>tspan_x = 0, tspan_dy = 0, tspan_text = []\<rparr> [])"

text \<open>The line fragments of a wrapped text, in order.\<close>

definition wrap_lines :: "(jsstring \<Rightarrow> real) \<Rightarrow> real \<Rightarrow> jsstring \<Rightarrow> jsstring list" where
  "wrap_lines m width text = map tspan_text (wrap m width text)"

text \<open>The words of a text or of a line fragment: its non-empty pieces.\<close>

definition words_of :: "jsstring \<Rightarrow> jsstring list" where
  "words_of s = filter (\<lambda>w. w \<noteq> []) (split_ws s)"

text \<open>
  The texts of the \<open>tspan\<close>s alone, for the proofs: the line committed at each
  overflow, then the line in progress when the loop ends.
\<close>

fun lines_loop ::
  "(jsstring \<Rightarrow> real) \<Rightarrow> real \<Rightarrow> jsstring list \<Rightarrow> jsstring list \<Rightarrow> jsstring list"
where
  "lines_loop m width [] line = [join line]"
| "lines_loop m width (word # ws) line =
     (if word = [] then [join line]
      else if m (join (line @ [word])) > width then join line # lines_loop m width ws [word]
      else lines_loop m width ws (line @ [word]))"

text \<open>A piece without whitespace, and a word: a non-empty such piece.\<close>

definition no_space :: "jsstring \<Rightarrow> bool" where
  "no_space w \<longleftrightarrow> list_all (\<lambda>c. \<not> is_space c) w"

definition is_word :: "jsstring \<Rightarrow> bool" where
  "is_word w \<longleftrightarrow> w \<noteq> [] \<and> no_space w"

section \<open>The drawing primitives\<close>

text \<open>
  The elements \<open>update\<close> appends to the cleared \<open>svg\<close>, with the attributes it sets.
  A coordinate that is \<open>None\<close> stands for \<open>undefined\<close>. Every text element also has
  \<open>alignment-baseline\<close> \<open>middle\<close>, which is left out.
\<close>

datatype content = NumberText jsnum | Tspans "tspan list"

datatype primitive =
    is_Line: Line (cls: string) (x1: jsnum) (x2: jsnum) (y1: "real option") (y2: "real option")
      (opacity: "real option") (stroke_width: real) (dasharray: "string option")
      (stroke: string)
  | is_Circle: Circle (cls: string) (cx: jsnum) (cy: "real option") (radius: real) (fill: string)
      (stroke_width: real) (stroke: string)
  | is_Text: Text (cls: string) (tx: jsnum) (ty: "real option") (text_anchor: string)
      (text_fill: "string option") (font_size: "real option") (bold: bool)
      (content: content)

section \<open>The render\<close>

text \<open>\<open>categories.map((c, i) => ...)\<close>: one data point per category value.\<close>

definition extract_data :: "runtime \<Rightarrow> pvalue list \<Rightarrow> pvalue list \<Rightarrow> pvalue list \<Rightarrow> datapoint list" where
  "extract_data rt cats value1 value2 =
     map (\<lambda>i. \<lparr>Categories = toString rt (cats ! i),
               Value1 = toNumber rt (at_index value1 i),
               Value2 = toNumber rt (at_index value2 i)\<rparr>)
       [0..<length cats]"

definition horizontalGridlines :: "datapoint list \<Rightarrow> real \<Rightarrow> real \<Rightarrow> primitive list" where
  "horizontalGridlines data width height =
     map (\<lambda>d. Line ''horizontalGridlines''
                (Num margin_left)
                (nminus (xScale data width (Value1 d)) (Num circleRadius))
                (yScale data height (Categories d))
                (yScale data height (Categories d))
                (Some (9 / 10)) 1 (Some ''3 3'') ''#CACACA'') data"

definition linesV1V2 :: "datapoint list \<Rightarrow> real \<Rightarrow> real \<Rightarrow> primitive list" where
  "linesV1V2 data width height =
     map (\<lambda>d. Line ''linesV1V2''
                (nplus (xScale data width (Value1 d)) (Num circleRadius))
                (nminus (xScale data width (Value2 d)) (Num circleRadius))
                (yScale data height (Categories d))
                (yScale data height (Categories d))
                None strokeWidth None (colourScale data (Categories d))) data"

definition circles1 :: "datapoint list \<Rightarrow> real \<Rightarrow> real \<Rightarrow> primitive list" where
  "circles1 data width height =
     map (\<lambda>d. Circle ''circles1''
                (xScale data width (Value1 d))
                (yScale data height (Categories d))
                circleRadius ''white'' strokeWidth (colourScale data (Categories d))) data"

definition circles2 :: "datapoint list \<Rightarrow> real \<Rightarrow> real \<Rightarrow> primitive list" where
  "circles2 data width height =
     map (\<lambda>d. Circle ''circles2''
                (xScale data width (Value2 d))
                (yScale data height (Categories d))
                circleRadius (colourScale data (Categories d)) strokeWidth
                (colourScale data (Categories d))) data"

definition value1Labels :: "datapoint list \<Rightarrow> real \<Rightarrow> real \<Rightarrow> primitive list" where
  "value1Labels data width height =
     map (\<lambda>d. Text ''value1Labels''
                (xScale data width (Value1 d))
                (yScale data height (Categories d))
                ''middle'' (Some (colourScale data (Categories d)))
                (Some (circleRadius - 2)) True (NumberText (Value1 d))) data"

definition value2Labels :: "datapoint list \<Rightarrow> real \<Rightarrow> real \<Rightarrow> primitive list" where
  "value2Labels data width height =
     map (\<lambda>d. Text ''value2Labels''
                (xScale data width (Value2 d))
                (yScale data height (Categories d))
                ''middle'' (Some ''white'')
                (Some (circleRadius - 2)) True (NumberText (Value2 d))) data"

text \<open>
  The category labels: the text is set to the category and then replaced by the
  \<open>tspan\<close>s of \<open>wrap\<close>, called with a width of 100 pixels.
\<close>

definition categoryLabels :: "runtime \<Rightarrow> datapoint list \<Rightarrow> real \<Rightarrow> real \<Rightarrow> primitive list" where
  "categoryLabels rt data width height =
     map (\<lambda>d. Text ''categoryLabels''
                (Num (margin_left - 10))
                (yScale data height (Categories d))
                ''end'' None None False
                (Tspans (wrap (textLength rt) 100 (Categories d)))) data"

text \<open>The elements of the \<open>svg\<close> after the scales are built, in document order.\<close>

definition layout :: "runtime \<Rightarrow> real \<Rightarrow> real \<Rightarrow> datapoint list \<Rightarrow> primitive list" where
  "layout rt width height data =
     horizontalGridlines data width height @ linesV1V2 data width height @
     circles1 data width height @ circles2 data width height @
     value1Labels data width height @ value2Labels data width height @
     categoryLabels rt data width height"

text \<open>
  \<open>update\<close>: the content of the \<open>svg\<close> after the call, which first removes what was
  there. Reading \<open>categories[0].values\<close> of an empty \<open>categories\<close> array throws.
\<close>

definition update :: "runtime \<Rightarrow> update_options \<Rightarrow> error + primitive list" where
  "update rt options =
     (let width = vp_width (opt_viewport options);
          height = vp_height (opt_viewport options)
      in case dataViews options of
           [] \<Rightarrow> Inr []
         | dataView # _ \<Rightarrow>
             (case dv_categorical dataView of
                None \<Rightarrow> Inr []
              | Some cat \<Rightarrow>
                  (case categories cat of
                     None \<Rightarrow> Inr []
                   | Some cs \<Rightarrow>
                       (case cat_values cat of
                          None \<Rightarrow> Inr []
                        | Some vs \<Rightarrow>
                            if length vs < 2 then Inr []
                            else
                              (case cs of
                                 [] \<Rightarrow> Inl TypeError
                               | c0 # _ \<Rightarrow>
                                   Inr (layout rt width height
                                          (extract_data rt (col_values c0)
                                             (col_values (vs ! 0))
                                             (col_values (vs ! 1)))))))))"

section \<open>Sample inputs\<close>

text \<open>A data view with one category column and the given measure columns.\<close>

definition options_of :: "viewport \<Rightarrow> column list \<Rightarrow> column list \<Rightarrow> update_options" where
  "options_of vp cs vs =
     \<lparr>opt_viewport = vp,
      dataViews = [\<lparr>dv_categorical = Some \<lparr>categories = Some cs, cat_values = Some vs\<rparr>\<rparr>]\<rparr>"

text \<open>Three categories; the first measure of the third is a text that is no number.\<close>

definition sample_categories :: column where
  "sample_categories =
     \<lparr>col_values = [PString (js ''North East''), PString (js ''South''), PString (js ''West'')]\<rparr>"

definition sample_measures :: "column list" where
  "sample_measures =
     [\<lparr>col_values = [PNumber (Num 0), PNumber (Num 4), PString (js ''n/a'')]\<rparr>,
      \<lparr>col_values = [PNumber (Num 10), PNumber (Num 5), PNumber (Num 8)]\<rparr>]"

section \<open>Unfolding the render\<close>

lemmas render_defs =
  update_def layout_def extract_data_def at_index_def horizontalGridlines_def linesV1V2_def
  circles1_def circles2_def value1Labels_def value2Labels_def categoryLabels_def
  xScale_def yScale_def colourScale_def maxValue_def scalePoint_def scaleOrdinal_def
  ordinal_domain_def insert_new_def collapsed_position_def colourPalette_def
  margin_left_def margin_right_def margin_top_def margin_bottom_def circleRadius_def
  strokeWidth_def wrap_def is_space_def lineHeight_def fixed_metrics_def js_def

section \<open>The shape of the output\<close>

lemma length_extract_data: "length (extract_data rt cats v1 v2) = length cats"
  by (simp add: extract_data_def)

lemma length_groups:
  "length (horizontalGridlines data w h) = length data"
  "length (linesV1V2 data w h) = length data"
  "length (circles1 data w h) = length data"
  "length (circles2 data w h) = length data"
  "length (value1Labels data w h) = length data"
  "length (value2Labels data w h) = length data"
  "length (categoryLabels rt data w h) = length data"
  by (simp_all add: horizontalGridlines_def linesV1V2_def circles1_def circles2_def
      value1Labels_def value2Labels_def categoryLabels_def)

lemma layout_length: "length (layout rt w h data) = 7 * length data"
  by (simp add: layout_def length_groups)

lemma layout_nth:
  assumes "i < length data"
  shows "layout rt w h data ! i = horizontalGridlines data w h ! i"
    and "layout rt w h data ! (length data + i) = linesV1V2 data w h ! i"
    and "layout rt w h data ! (2 * length data + i) = circles1 data w h ! i"
    and "layout rt w h data ! (3 * length data + i) = circles2 data w h ! i"
    and "layout rt w h data ! (4 * length data + i) = value1Labels data w h ! i"
    and "layout rt w h data ! (5 * length data + i) = value2Labels data w h ! i"
    and "layout rt w h data ! (6 * length data + i) = categoryLabels rt data w h ! i"
  using assms by (simp_all add: layout_def nth_append length_groups)

lemma update_options_of:
  "2 \<le> length vs \<Longrightarrow>
   update rt \<lparr>opt_viewport = vp,
      dataViews = \<lparr>dv_categorical = Some \<lparr>categories = Some (c0 # cs), cat_values = Some vs\<rparr>\<rparr> # rest\<rparr>
   = Inr (layout rt (vp_width vp) (vp_height vp)
            (extract_data rt (col_values c0) (col_values (vs ! 0)) (col_values (vs ! 1))))"
  by (simp add: update_def)

lemma layout_Nil: "layout rt w h [] = []"
  by (simp add: layout_def horizontalGridlines_def linesV1V2_def circles1_def circles2_def
      value1Labels_def value2Labels_def categoryLabels_def)

lemma scaleLinear_NaN: "scaleLinear d0 d1 r0 r1 NaN = NaN"
  by (cases d0; cases d1) simp_all

lemma xScale_NaN: "xScale data w NaN = NaN"
  by (simp add: xScale_def scaleLinear_NaN)

section \<open>When nothing is drawn\<close>

text \<open>
  C1 (as amended). The render leaves the surface empty when there is no data view, when
  the data view has no categorical part, no category field or no measure fields, when it
  has fewer than two measure fields, and when the dataset is empty. The size of the
  viewport plays no part in this.
\<close>

theorem update_renders_nothing:
  "update rt \<lparr>opt_viewport = vp, dataViews = []\<rparr> = Inr [] \<and>
   update rt \<lparr>opt_viewport = vp, dataViews = \<lparr>dv_categorical = None\<rparr> # rest\<rparr> = Inr [] \<and>
   update rt \<lparr>opt_viewport = vp,
     dataViews = \<lparr>dv_categorical = Some \<lparr>categories = None, cat_values = vo\<rparr>\<rparr> # rest\<rparr> = Inr [] \<and>
   update rt \<lparr>opt_viewport = vp,
     dataViews = \<lparr>dv_categorical = Some \<lparr>categories = co, cat_values = None\<rparr>\<rparr> # rest\<rparr> = Inr [] \<and>
   (length vs < 2 \<longrightarrow>
     update rt \<lparr>opt_viewport = vp,
       dataViews = \<lparr>dv_categorical = Some \<lparr>categories = co, cat_values = Some vs\<rparr>\<rparr> # rest\<rparr> = Inr []) \<and>
   (2 \<le> length vs \<longrightarrow>
     update rt \<lparr>opt_viewport = vp,
       dataViews = \<lparr>dv_categorical = Some \<lparr>categories = Some (\<lparr>col_values = []\<rparr> # cs),
         cat_values = Some vs\<rparr>\<rparr> # rest\<rparr> = Inr [])"
  by (auto simp: update_def extract_data_def layout_Nil split: option.splits list.splits)

theorem update_renders_nothing_witness:
  "length [\<lparr>col_values = [PNumber (Num 1)]\<rparr>] < 2 \<and>
   update fixed_metrics (options_of \<lparr>vp_width = 330, vp_height = 290\<rparr> [sample_categories]
     [\<lparr>col_values = [PNumber (Num 1)]\<rparr>]) = Inr [] \<and>
   2 \<le> length sample_measures \<and>
   update fixed_metrics (options_of \<lparr>vp_width = 330, vp_height = 290\<rparr> [\<lparr>col_values = []\<rparr>]
     sample_measures) = Inr []"
  using update_renders_nothing [where rt = fixed_metrics
      and vp = "\<lparr>vp_width = 330, vp_height = 290\<rparr>"
      and vs = "[\<lparr>col_values = [PNumber (Num 1)]\<rparr>]" and co = "Some [sample_categories]"
      and rest = "[]"]
    update_renders_nothing [where rt = fixed_metrics
      and vp = "\<lparr>vp_width = 330, vp_height = 290\<rparr>"
      and vs = sample_measures and cs = "[]" and rest = "[]"]
  by (simp add: options_of_def sample_measures_def)

text \<open>
  A viewport of width and height 0 does not stop the render: the seven elements of the
  one data point are appended all the same.
\<close>

theorem update_draws_in_empty_viewport:
  "update fixed_metrics
     (options_of \<lparr>vp_width = 0, vp_height = 0\<rparr> [\<lparr>col_values = [PString (js ''A'')]\<rparr>]
        [\<lparr>col_values = [PNumber (Num 1)]\<rparr>, \<lparr>col_values = [PNumber (Num 2)]\<rparr>])
   = Inr [Line ''horizontalGridlines'' (Num 100) (Num 21) (Some 15) (Some 15)
            (Some (9 / 10)) 1 (Some ''3 3'') ''#CACACA'',
          Line ''linesV1V2'' (Num 49) (Num (- 44)) (Some 15) (Some 15) None (5 / 2) None
            ''#0079EB'',
          Circle ''circles1'' (Num 35) (Some 15) 14 ''white'' (5 / 2) ''#0079EB'',
          Circle ''circles2'' (Num (- 30)) (Some 15) 14 ''#0079EB'' (5 / 2) ''#0079EB'',
          Text ''value1Labels'' (Num 35) (Some 15) ''middle'' (Some ''#0079EB'') (Some 12)
            True (NumberText (Num 1)),
          Text ''value2Labels'' (Num (- 30)) (Some 15) ''middle'' (Some ''white'') (Some 12)
            True (NumberText (Num 2)),
          Text ''categoryLabels'' (Num 90) (Some 15) ''end'' None None False
            (Tspans [\<lparr>tspan_x = 0, tspan_dy = 0, tspan_text = js ''A''\<rparr>])]"
  by (simp add: options_of_def render_defs)

section \<open>Seven primitives per data point\<close>

text \<open>
  C2. For a data view with a category field and at least two measure fields, and every
  viewport (so for every positive one), the render emits exactly seven primitives per
  data point, in a fixed order: the dashed gridlines of all points, then their connector
  lines, their first circles, their second circles, their first value labels, their second
  value labels and their category labels, each group in the order of the data.
\<close>

theorem update_seven_per_point:
  assumes "2 \<le> length vs"
    and "data = extract_data rt (col_values c0) (col_values (vs ! 0)) (col_values (vs ! 1))"
    and "n = length data"
  shows "\<exists>ps. update rt \<lparr>opt_viewport = vp,
             dataViews = \<lparr>dv_categorical = Some \<lparr>categories = Some (c0 # cs), cat_values = Some vs\<rparr>\<rparr> # rest\<rparr>
             = Inr ps \<and>
           length ps = 7 * n \<and> n = length (col_values c0) \<and>
           (\<forall>i<n.
              is_Line (ps ! i) \<and> cls (ps ! i) = ''horizontalGridlines'' \<and>
                dasharray (ps ! i) = Some ''3 3'' \<and>
                x2 (ps ! i) = nminus (xScale data (vp_width vp) (Value1 (data ! i))) (Num circleRadius) \<and>
              is_Line (ps ! (n + i)) \<and> cls (ps ! (n + i)) = ''linesV1V2'' \<and>
                dasharray (ps ! (n + i)) = None \<and>
                x1 (ps ! (n + i)) = nplus (xScale data (vp_width vp) (Value1 (data ! i))) (Num circleRadius) \<and>
              is_Circle (ps ! (2 * n + i)) \<and> cls (ps ! (2 * n + i)) = ''circles1'' \<and>
                cx (ps ! (2 * n + i)) = xScale data (vp_width vp) (Value1 (data ! i)) \<and>
              is_Circle (ps ! (3 * n + i)) \<and> cls (ps ! (3 * n + i)) = ''circles2'' \<and>
                cx (ps ! (3 * n + i)) = xScale data (vp_width vp) (Value2 (data ! i)) \<and>
              is_Text (ps ! (4 * n + i)) \<and> cls (ps ! (4 * n + i)) = ''value1Labels'' \<and>
                content (ps ! (4 * n + i)) = NumberText (Value1 (data ! i)) \<and>
              is_Text (ps ! (5 * n + i)) \<and> cls (ps ! (5 * n + i)) = ''value2Labels'' \<and>
                content (ps ! (5 * n + i)) = NumberText (Value2 (data ! i)) \<and>
              is_Text (ps ! (6 * n + i)) \<and> cls (ps ! (6 * n + i)) = ''categoryLabels'' \<and>
                content (ps ! (6 * n + i)) =
                  Tspans (wrap (textLength rt) 100 (Categories (data ! i))))"
proof -
  let ?ps = "layout rt (vp_width vp) (vp_height vp) data"
  have u: "update rt \<lparr>opt_viewport = vp,
             dataViews = \<lparr>dv_categorical = Some \<lparr>categories = Some (c0 # cs), cat_values = Some vs\<rparr>\<rparr> # rest\<rparr>
           = Inr ?ps"
    using assms(1,2) by (simp add: update_options_of)
  have len: "length ?ps = 7 * n"
    using assms(3) by (simp add: layout_length)
  have n: "n = length (col_values c0)"
    using assms(2,3) by (simp add: length_extract_data)
  have pt: "is_Line (?ps ! i) \<and> cls (?ps ! i) = ''horizontalGridlines'' \<and>
                dasharray (?ps ! i) = Some ''3 3'' \<and>
                x2 (?ps ! i) = nminus (xScale data (vp_width vp) (Value1 (data ! i))) (Num circleRadius) \<and>
              is_Line (?ps ! (n + i)) \<and> cls (?ps ! (n + i)) = ''linesV1V2'' \<and>
                dasharray (?ps ! (n + i)) = None \<and>
                x1 (?ps ! (n + i)) = nplus (xScale data (vp_width vp) (Value1 (data ! i))) (Num circleRadius) \<and>
              is_Circle (?ps ! (2 * n + i)) \<and> cls (?ps ! (2 * n + i)) = ''circles1'' \<and>
                cx (?ps ! (2 * n + i)) = xScale data (vp_width vp) (Value1 (data ! i)) \<and>
              is_Circle (?ps ! (3 * n + i)) \<and> cls (?ps ! (3 * n + i)) = ''circles2'' \<and>
                cx (?ps ! (3 * n + i)) = xScale data (vp_width vp) (Value2 (data ! i)) \<and>
              is_Text (?ps ! (4 * n + i)) \<and> cls (?ps ! (4 * n + i)) = ''value1Labels'' \<and>
                content (?ps ! (4 * n + i)) = NumberText (Value1 (data ! i)) \<and>
              is_Text (?ps ! (5 * n + i)) \<and> cls (?ps ! (5 * n + i)) = ''value2Labels'' \<and>
                content (?ps ! (5 * n + i)) = NumberText (Value2 (data ! i)) \<and>
              is_Text (?ps ! (6 * n + i)) \<and> cls (?ps ! (6 * n + i)) = ''categoryLabels'' \<and>
                content (?ps ! (6 * n + i)) =
                  Tspans (wrap (textLength rt) 100 (Categories (data ! i)))" if "i < n" for i
    using that assms(3)
    by (simp add: layout_nth horizontalGridlines_def linesV1V2_def circles1_def circles2_def
        value1Labels_def value2Labels_def categoryLabels_def)
  show ?thesis
    using u len n pt by blast
qed

theorem update_seven_per_point_witness:
  "\<exists>ps. update fixed_metrics (options_of \<lparr>vp_width = 330, vp_height = 290\<rparr> [sample_categories] sample_measures) = Inr ps \<and>
     length ps = 7 * 3 \<and>
     is_Line (ps ! 1) \<and> is_Line (ps ! 4) \<and> is_Circle (ps ! 7) \<and> is_Circle (ps ! 10) \<and>
     is_Text (ps ! 13) \<and> is_Text (ps ! 16) \<and> is_Text (ps ! 19)"
proof -
  have two: "2 \<le> length sample_measures"
    by (simp add: sample_measures_def)
  obtain ps where ps: "update fixed_metrics (options_of \<lparr>vp_width = 330, vp_height = 290\<rparr> [sample_categories] sample_measures) = Inr ps"
    "length ps = 7 * 3"
    "\<forall>i<3. is_Line (ps ! i) \<and> is_Line (ps ! (3 + i)) \<and> is_Circle (ps ! (2 * 3 + i)) \<and>
       is_Circle (ps ! (3 * 3 + i)) \<and> is_Text (ps ! (4 * 3 + i)) \<and> is_Text (ps ! (5 * 3 + i)) \<and>
       is_Text (ps ! (6 * 3 + i))"
    using update_seven_per_point [OF two refl, of 3 fixed_metrics sample_categories
        "\<lparr>vp_width = 330, vp_height = 290\<rparr>" "[]" "[]"]
    by (auto simp: options_of_def length_extract_data sample_categories_def)
  have "(1::nat) < 3" by simp
  from ps(3) [rule_format, OF this]
  have "is_Line (ps ! 1) \<and> is_Line (ps ! 4) \<and> is_Circle (ps ! 7) \<and> is_Circle (ps ! 10) \<and>
     is_Text (ps ! 13) \<and> is_Text (ps ! 16) \<and> is_Text (ps ! 19)"
    by simp
  with ps(1,2) show ?thesis by auto
qed

section \<open>The greatest value and the horizontal scale\<close>

lemma d3_max_None: "d3_max vs = None \<longleftrightarrow> (\<forall>v\<in>set vs. v = NaN)"
  by (induction vs rule: d3_max.induct) (auto split: option.splits)

lemma d3_max_Some:
  "d3_max vs = Some m \<Longrightarrow> Num m \<in> set vs \<and> (\<forall>v. Num v \<in> set vs \<longrightarrow> v \<le> m)"
proof (induction vs arbitrary: m rule: d3_max.induct)
  case 1
  then show ?case by simp
next
  case (2 vs)
  then show ?case by simp
next
  case (3 v vs)
  show ?case
  proof (cases "d3_max vs")
    case None
    then have "\<forall>u\<in>set vs. u = NaN" by (simp add: d3_max_None)
    with 3 None show ?thesis by auto
  next
    case (Some k)
    with 3 have "Num k \<in> set vs" and "\<forall>u. Num u \<in> set vs \<longrightarrow> u \<le> k" and "m = max v k"
      by auto
    then show ?thesis by (auto simp: max_def)
  qed
qed

lemma maxValue_finite:
  assumes "data \<noteq> []" and "\<forall>d\<in>set data. Value1 d \<noteq> NaN \<and> Value2 d \<noteq> NaN"
  shows "\<exists>m. maxValue data = Num m"
proof -
  obtain d where d: "d \<in> set data" using assms(1) by (cases data) auto
  with assms(2) obtain a b where "Value1 d = Num a" "Value2 d = Num b"
    by (metis jsnum.exhaust)
  then have "Math_max (Value1 d) (Value2 d) \<noteq> NaN" by simp
  with d have "\<not> (\<forall>v\<in>set (map (\<lambda>d. Math_max (Value1 d) (Value2 d)) data). v = NaN)"
    by auto
  then have "d3_max (map (\<lambda>d. Math_max (Value1 d) (Value2 d)) data) \<noteq> None"
    by (simp only: d3_max_None not_False_eq_True)
  then show ?thesis by (auto simp: maxValue_def)
qed

lemma maxValue_is_max:
  assumes "maxValue data = Num m"
  shows "(\<exists>d\<in>set data. Math_max (Value1 d) (Value2 d) = Num m) \<and>
         (\<forall>d\<in>set data. \<forall>v. Math_max (Value1 d) (Value2 d) = Num v \<longrightarrow> v \<le> m)"
proof -
  from assms have "d3_max (map (\<lambda>d. Math_max (Value1 d) (Value2 d)) data) = Some m"
    by (auto simp: maxValue_def split: option.splits)
  from d3_max_Some [OF this] show ?thesis
    by (auto simp: image_iff) metis
qed

lemma xScale_Num:
  assumes "maxValue data = Num m" and "m \<noteq> 0"
  shows "xScale data width (Num v) =
           Num (margin_left + v / m * (width - margin_right - margin_left))"
  using assms by (simp add: xScale_def field_simps)

text \<open>
  C4 (as amended). For non-empty data whose values are all numbers, the upper bound of
  the domain is the greatest of the values; when it is not 0, the scale maps 0 to the left
  margin and the greatest value to the width minus the right margin; and when it is
  positive and the width exceeds the two horizontal margins together, the scale is
  strictly increasing.
\<close>

theorem xScale_ends_and_order:
  assumes "data \<noteq> []" and "\<forall>d\<in>set data. Value1 d \<noteq> NaN \<and> Value2 d \<noteq> NaN"
  shows "\<exists>m. maxValue data = Num m \<and>
           (\<exists>d\<in>set data. Math_max (Value1 d) (Value2 d) = Num m) \<and>
           (\<forall>d\<in>set data. \<forall>v. Math_max (Value1 d) (Value2 d) = Num v \<longrightarrow> v \<le> m) \<and>
           (m \<noteq> 0 \<longrightarrow>
              xScale data width (Num 0) = Num margin_left \<and>
              xScale data width (Num m) = Num (width - margin_right)) \<and>
           (0 < m \<and> margin_left + margin_right < width \<longrightarrow>
              (\<forall>v1 v2. v1 < v2 \<longrightarrow>
                 nless (xScale data width (Num v1)) (xScale data width (Num v2))))"
proof -
  obtain m where m: "maxValue data = Num m"
    using maxValue_finite [OF assms] by blast
  have ends: "xScale data width (Num 0) = Num margin_left \<and>
              xScale data width (Num m) = Num (width - margin_right)" if "m \<noteq> 0"
    using m that by (simp add: xScale_Num)
  have order: "nless (xScale data width (Num v1)) (xScale data width (Num v2))"
    if "0 < m" and "margin_left + margin_right < width" and "v1 < v2" for v1 v2
  proof -
    have "v1 / m < v2 / m"
      using that(1,3) by (simp add: divide_strict_right_mono)
    moreover have "0 < width - margin_right - margin_left"
      using that(2) by simp
    ultimately have "v1 / m * (width - margin_right - margin_left)
        < v2 / m * (width - margin_right - margin_left)"
      by (rule mult_strict_right_mono)
    then show ?thesis
      using m that(1) by (simp add: xScale_Num)
  qed
  show ?thesis
    using m maxValue_is_max [OF m] ends order by blast
qed

theorem xScale_ends_and_order_witness:
  "xScale [\<lparr>Categories = js ''A'', Value1 = Num 4, Value2 = Num 10\<rparr>,
           \<lparr>Categories = js ''B'', Value1 = Num 5, Value2 = Num 2\<rparr>] 330 (Num 0) = Num 100 \<and>
   xScale [\<lparr>Categories = js ''A'', Value1 = Num 4, Value2 = Num 10\<rparr>,
           \<lparr>Categories = js ''B'', Value1 = Num 5, Value2 = Num 2\<rparr>] 330 (Num 10) = Num 300 \<and>
   nless (xScale [\<lparr>Categories = js ''A'', Value1 = Num 4, Value2 = Num 10\<rparr>,
                  \<lparr>Categories = js ''B'', Value1 = Num 5, Value2 = Num 2\<rparr>] 330 (Num 4))
         (xScale [\<lparr>Categories = js ''A'', Value1 = Num 4, Value2 = Num 10\<rparr>,
                  \<lparr>Categories = js ''B'', Value1 = Num 5, Value2 = Num 2\<rparr>] 330 (Num 5))"
proof -
  let ?data = "[\<lparr>Categories = js ''A'', Value1 = Num 4, Value2 = Num 10\<rparr>,
                \<lparr>Categories = js ''B'', Value1 = Num 5, Value2 = Num 2\<rparr>]"
  have ne: "?data \<noteq> []" by simp
  have fin: "\<forall>d\<in>set ?data. Value1 d \<noteq> NaN \<and> Value2 d \<noteq> NaN" by simp
  have mx: "maxValue ?data = Num 10" by (simp add: maxValue_def)
  from xScale_ends_and_order [OF ne fin, of 330] mx
  have "xScale ?data 330 (Num 0) = Num margin_left \<and>
        xScale ?data 330 (Num 10) = Num (330 - margin_right) \<and>
        (\<forall>v1 v2. v1 < v2 \<longrightarrow> nless (xScale ?data 330 (Num v1)) (xScale ?data 330 (Num v2)))"
    by (auto simp: margin_left_def margin_right_def)
  then show ?thesis
    by (simp add: margin_left_def margin_right_def)
qed

text \<open>
  Without these conditions the scale need not increase: it is constant when all values are
  0, and it decreases when the viewport is narrower than the margins or when the greatest
  value is negative.
\<close>

theorem xScale_not_always_increasing:
  "maxValue [\<lparr>Categories = js ''A'', Value1 = Num 0, Value2 = Num 0\<rparr>] = Num 0 \<and>
   xScale [\<lparr>Categories = js ''A'', Value1 = Num 0, Value2 = Num 0\<rparr>] 330 (Num 0)
     \<noteq> Num (330 - margin_right) \<and>
   \<not> nless (xScale [\<lparr>Categories = js ''A'', Value1 = Num 0, Value2 = Num 0\<rparr>] 330 (Num 1))
            (xScale [\<lparr>Categories = js ''A'', Value1 = Num 0, Value2 = Num 0\<rparr>] 330 (Num 2)) \<and>
   xScale [\<lparr>Categories = js ''A'', Value1 = Num 1, Value2 = Num 2\<rparr>] 100 (Num 1) = Num 85 \<and>
   xScale [\<lparr>Categories = js ''A'', Value1 = Num 1, Value2 = Num 2\<rparr>] 100 (Num 2) = Num 70 \<and>
   \<not> nless (xScale [\<lparr>Categories = js ''A'', Value1 = Num 1, Value2 = Num 2\<rparr>] 100 (Num 1))
            (xScale [\<lparr>Categories = js ''A'', Value1 = Num 1, Value2 = Num 2\<rparr>] 100 (Num 2)) \<and>
   maxValue [\<lparr>Categories = js ''A'', Value1 = Num (- 1), Value2 = Num (- 2)\<rparr>] = Num (- 1) \<and>
   \<not> nless (xScale [\<lparr>Categories = js ''A'', Value1 = Num (- 1), Value2 = Num (- 2)\<rparr>] 330 (Num (- 2)))
            (xScale [\<lparr>Categories = js ''A'', Value1 = Num (- 1), Value2 = Num (- 2)\<rparr>] 330 (Num (- 1)))"
  by (simp add: xScale_def maxValue_def margin_left_def margin_right_def collapsed_position_def)

text \<open>
  C5 (as amended). When the data is not empty and both values of every data point are 0,
  the upper bound of the domain is 0 and the scale maps every value to the midpoint of its
  range, half way between the left margin and the width minus the right margin.
\<close>

theorem xScale_all_zero:
  assumes "data \<noteq> []" and "\<forall>d\<in>set data. Value1 d = Num 0 \<and> Value2 d = Num 0"
  shows "maxValue data = Num 0 \<and>
         (\<forall>v. xScale data width (Num v) = Num ((margin_left + (width - margin_right)) / 2))"
proof -
  from assms(2) have fin: "\<forall>d\<in>set data. Value1 d \<noteq> NaN \<and> Value2 d \<noteq> NaN"
    by simp
  obtain m where m: "maxValue data = Num m"
    using maxValue_finite [OF assms(1) fin] by blast
  from maxValue_is_max [OF m] obtain d where "d \<in> set data"
    and "Math_max (Value1 d) (Value2 d) = Num m"
    by blast
  with assms(2) have "m = 0" by auto
  with m show ?thesis
    by (simp add: xScale_def collapsed_position_def field_simps)
qed

theorem xScale_all_zero_witness:
  "maxValue [\<lparr>Categories = js ''A'', Value1 = Num 0, Value2 = Num 0\<rparr>,
             \<lparr>Categories = js ''B'', Value1 = Num 0, Value2 = Num 0\<rparr>] = Num 0 \<and>
   xScale [\<lparr>Categories = js ''A'', Value1 = Num 0, Value2 = Num 0\<rparr>,
           \<lparr>Categories = js ''B'', Value1 = Num 0, Value2 = Num 0\<rparr>] 330 (Num 7) = Num 200"
  using xScale_all_zero [of "[\<lparr>Categories = js ''A'', Value1 = Num 0, Value2 = Num 0\<rparr>,
           \<lparr>Categories = js ''B'', Value1 = Num 0, Value2 = Num 0\<rparr>]" 330]
  by (simp add: margin_left_def margin_right_def)

text \<open>
  With all values 0 in a viewport of width 330 the scale gives 200 for the value 0, not
  the left margin 100; and for empty data the upper bound of the domain is not 0 but
  \<open>NaN\<close>, the greatest value being undefined.
\<close>

theorem xScale_all_zero_midpoint:
  "maxValue [\<lparr>Categories = js ''A'', Value1 = Num 0, Value2 = Num 0\<rparr>] = Num 0 \<and>
   xScale [\<lparr>Categories = js ''A'', Value1 = Num 0, Value2 = Num 0\<rparr>] 330 (Num 0) = Num 200 \<and>
   xScale [\<lparr>Categories = js ''A'', Value1 = Num 0, Value2 = Num 0\<rparr>] 330 (Num 0)
     \<noteq> Num margin_left \<and>
   maxValue [] = NaN"
  by (simp add: xScale_def maxValue_def margin_left_def margin_right_def collapsed_position_def)

section \<open>The vertical scale\<close>

lemma foldl_insert_new: "distinct (acc @ xs) \<Longrightarrow> foldl insert_new acc xs = acc @ xs"
  by (induction xs arbitrary: acc) (auto simp: insert_new_def)

lemma ordinal_domain_distinct: "distinct xs \<Longrightarrow> ordinal_domain xs = xs"
  by (simp add: ordinal_domain_def foldl_insert_new)

lemma index_of_nth: "distinct xs \<Longrightarrow> i < length xs \<Longrightarrow> index_of xs (xs ! i) = Some i"
proof (induction xs arbitrary: i)
  case Nil
  then show ?case by simp
next
  case (Cons x xs)
  show ?case
  proof (cases i)
    case 0
    then show ?thesis by simp
  next
    case (Suc j)
    with Cons.prems have "xs ! j \<in> set xs" and "x \<notin> set xs" and "j < length xs" and "distinct xs"
      by auto
    with Cons.IH [of j] Suc show ?thesis by auto
  qed
qed

text \<open>The position of the i-th of n distinct values on a range that runs upwards.\<close>

lemma scalePoint_nth:
  assumes "distinct cs" and "i < length cs" and "r0 \<le> r1"
  shows "scalePoint cs r0 r1 (cs ! i) =
           Some (if length cs = 1 then (r0 + r1) / 2
                 else r0 + real i * ((r1 - r0) / (real (length cs) - 1)))"
proof (cases "length cs = 1")
  case True
  with assms(2) have "i = 0" by simp
  with True assms show ?thesis
    by (simp add: scalePoint_def ordinal_domain_distinct index_of_nth Let_def field_simps)
next
  case False
  with assms(2) have n: "2 \<le> length cs" by simp
  then have m: "max 1 (real (length cs) - 1) = real (length cs) - 1" by simp
  have nz: "real (length cs) - 1 \<noteq> 0" using n by simp
  have "r0 + (r1 - r0 - (r1 - r0) / (real (length cs) - 1) * (real (length cs) - 1)) * (1 / 2) = r0"
    using nz by simp
  with False assms m show ?thesis
    by (simp add: scalePoint_def ordinal_domain_distinct index_of_nth Let_def del: max.absorb2 max.absorb4)
qed

text \<open>
  C6 (as amended). For data with distinct categories and a viewport higher than the top
  and bottom margins together, the categories get strictly increasing, evenly spaced
  y-coordinates in input order, from the top margin to the height minus the bottom margin;
  a single category is placed at the midpoint.
\<close>

theorem yScale_increasing_even:
  assumes "distinct (map Categories data)" and "n = length data"
    and "margin_top + margin_bottom < height"
  shows "\<exists>ys. length ys = n \<and>
           (\<forall>i<n. yScale data height (Categories (data ! i)) = Some (ys ! i)) \<and>
           (\<forall>i j. i < j \<and> j < n \<longrightarrow> ys ! i < ys ! j) \<and>
           (\<forall>i. Suc i < n \<longrightarrow>
              ys ! Suc i - ys ! i = (height - margin_bottom - margin_top) / (real n - 1)) \<and>
           (\<forall>i<n. margin_top \<le> ys ! i \<and> ys ! i \<le> height - margin_bottom) \<and>
           (2 \<le> n \<longrightarrow> ys ! 0 = margin_top \<and> ys ! (n - 1) = height - margin_bottom) \<and>
           (n = 1 \<longrightarrow> ys ! 0 = (margin_top + (height - margin_bottom)) / 2)"
proof -
  let ?r0 = margin_top and ?r1 = "height - margin_bottom"
  let ?step = "(?r1 - ?r0) / (real n - 1)"
  let ?y = "\<lambda>i. if n = 1 then (?r0 + ?r1) / 2 else ?r0 + real i * ?step"
  let ?ys = "map ?y [0..<n]"
  have r: "?r0 < ?r1" using assms(3) by simp
  have len: "length ?ys = n" by simp
  have pos: "yScale data height (Categories (data ! i)) = Some (?ys ! i)" if "i < n" for i
  proof -
    have "scalePoint (map Categories data) ?r0 ?r1 (map Categories data ! i) = Some (?y i)"
      using scalePoint_nth [of "map Categories data" i ?r0 ?r1] assms(1,2) that r by simp
    with that assms(2) show ?thesis by (simp add: yScale_def)
  qed
  have step: "0 < ?step" if "2 \<le> n"
    using that r by simp
  have incr: "?ys ! i < ?ys ! j" if "i < j \<and> j < n" for i j
  proof -
    from that have n: "2 \<le> n" by simp
    from that have "real i < real j" by simp
    then have "real i * ?step < real j * ?step"
      using step [OF n] by (rule mult_strict_right_mono)
    with that n show ?thesis by simp
  qed
  have gap: "(a + real (Suc i) * s) - (a + real i * s) = s" for a s :: real and i
    by (simp add: algebra_simps)
  have even: "?ys ! Suc i - ?ys ! i = ?step" if "Suc i < n" for i
    using that gap [of ?r0 i ?step] by simp
  have last: "?ys ! 0 = ?r0 \<and> ?ys ! (n - 1) = ?r1" if "2 \<le> n"
  proof -
    have "real (n - 1) * ?step = ?r1 - ?r0"
      using that by (simp add: of_nat_diff)
    with that show ?thesis by simp
  qed
  have inside: "?r0 \<le> ?ys ! i \<and> ?ys ! i \<le> ?r1" if "i < n" for i
  proof (cases "n = 1")
    case True
    with that r show ?thesis by simp
  next
    case False
    with that have n: "2 \<le> n" by simp
    have lo: "0 \<le> real i * ?step"
      using step [OF n] by (intro mult_nonneg_nonneg) auto
    have "real i * ?step \<le> real (n - 1) * ?step"
      using step [OF n] that by (intro mult_right_mono) auto
    also have "real (n - 1) * ?step = ?r1 - ?r0"
      using n by (simp add: of_nat_diff)
    finally have hi: "real i * ?step \<le> ?r1 - ?r0" .
    from False that lo hi show ?thesis by simp
  qed
  have one: "?ys ! 0 = (?r0 + ?r1) / 2" if "n = 1"
    using that by simp
  show ?thesis
    apply (rule exI [of _ ?ys])
    using len pos incr even inside last one
    apply (intro conjI allI impI)
          apply blast+
    done
qed

theorem yScale_increasing_even_witness:
  "yScale [\<lparr>Categories = js ''A'', Value1 = Num 1, Value2 = Num 2\<rparr>,
           \<lparr>Categories = js ''B'', Value1 = Num 3, Value2 = Num 4\<rparr>,
           \<lparr>Categories = js ''C'', Value1 = Num 5, Value2 = Num 6\<rparr>] 290 (js ''A'') = Some 60 \<and>
   yScale [\<lparr>Categories = js ''A'', Value1 = Num 1, Value2 = Num 2\<rparr>,
           \<lparr>Categories = js ''B'', Value1 = Num 3, Value2 = Num 4\<rparr>,
           \<lparr>Categories = js ''C'', Value1 = Num 5, Value2 = Num 6\<rparr>] 290 (js ''B'') = Some 160 \<and>
   yScale [\<lparr>Categories = js ''A'', Value1 = Num 1, Value2 = Num 2\<rparr>,
           \<lparr>Categories = js ''B'', Value1 = Num 3, Value2 = Num 4\<rparr>,
           \<lparr>Categories = js ''C'', Value1 = Num 5, Value2 = Num 6\<rparr>] 290 (js ''C'') = Some 260"
proof -
  let ?data = "[\<lparr>Categories = js ''A'', Value1 = Num 1, Value2 = Num 2\<rparr>,
           \<lparr>Categories = js ''B'', Value1 = Num 3, Value2 = Num 4\<rparr>,
           \<lparr>Categories = js ''C'', Value1 = Num 5, Value2 = Num 6\<rparr>]"
  have d: "distinct (map Categories ?data)" by (simp add: js_def)
  have h: "margin_top + margin_bottom < 290" by (simp add: margin_top_def margin_bottom_def)
  from yScale_increasing_even [OF d refl h] obtain ys where
    a: "\<forall>i<length ?data. yScale ?data 290 (Categories (?data ! i)) = Some (ys ! i)" and
    b: "\<forall>i. Suc i < length ?data \<longrightarrow>
          ys ! Suc i - ys ! i = (290 - margin_bottom - margin_top) / (real (length ?data) - 1)" and
    c: "2 \<le> length ?data \<longrightarrow>
          ys ! 0 = margin_top \<and> ys ! (length ?data - 1) = 290 - margin_bottom"
    by blast
  from c have y0: "ys ! 0 = 60" by (simp add: margin_top_def)
  from b [rule_format, of 0] y0 have y1: "ys ! 1 = 160"
    by (simp add: margin_top_def margin_bottom_def)
  from b [rule_format, of 1] y1 have y2: "ys ! 2 = 260"
    by (simp add: margin_top_def margin_bottom_def numeral_2_eq_2)
  from a [rule_format, of 0] a [rule_format, of 1] a [rule_format, of 2] y0 y1 y2
  show ?thesis by simp
qed

text \<open>
  In a viewport of height 90 two categories share one y-coordinate, and in one of height
  50 the second lies above the first.
\<close>

theorem yScale_small_viewport:
  "yScale [\<lparr>Categories = js ''A'', Value1 = Num 1, Value2 = Num 2\<rparr>,
           \<lparr>Categories = js ''B'', Value1 = Num 3, Value2 = Num 4\<rparr>] 90 (js ''A'') = Some 60 \<and>
   yScale [\<lparr>Categories = js ''A'', Value1 = Num 1, Value2 = Num 2\<rparr>,
           \<lparr>Categories = js ''B'', Value1 = Num 3, Value2 = Num 4\<rparr>] 90 (js ''B'') = Some 60 \<and>
   yScale [\<lparr>Categories = js ''A'', Value1 = Num 1, Value2 = Num 2\<rparr>,
           \<lparr>Categories = js ''B'', Value1 = Num 3, Value2 = Num 4\<rparr>] 50 (js ''A'') = Some 60 \<and>
   yScale [\<lparr>Categories = js ''A'', Value1 = Num 1, Value2 = Num 2\<rparr>,
           \<lparr>Categories = js ''B'', Value1 = Num 3, Value2 = Num 4\<rparr>] 50 (js ''B'') = Some 20"
  by (simp add: yScale_def scalePoint_def ordinal_domain_def insert_new_def margin_top_def
      margin_bottom_def js_def)

section \<open>The wrap loop\<close>

lemma wrap_loop_texts:
  "tspan_text tsp = join line \<Longrightarrow>
   map tspan_text (wrap_loop m width ws line tsp out)
     = map tspan_text out @ lines_loop m width ws line"
proof (induction ws arbitrary: line tsp out)
  case Nil
  then show ?case by simp
next
  case (Cons word ws)
  show ?case
  proof (cases "word = []")
    case True
    with Cons.prems show ?thesis by simp
  next
    case False
    show ?thesis
    proof (cases "m (join (line @ [word])) > width")
      case True
      have "map tspan_text
              (wrap_loop m width ws [word]
                 \<lparr>tspan_x = 0, tspan_dy = lineHeight, tspan_text = word\<rparr>
                 (out @ [tsp\<lparr>tspan_text := join line\<rparr>]))
            = map tspan_text (out @ [tsp\<lparr>tspan_text := join line\<rparr>]) @ lines_loop m width ws [word]"
        by (rule Cons.IH) simp
      with True False show ?thesis by (simp add: Let_def)
    next
      case no: False
      have "map tspan_text
              (wrap_loop m width ws (line @ [word]) (tsp\<lparr>tspan_text := join (line @ [word])\<rparr>) out)
            = map tspan_text out @ lines_loop m width ws (line @ [word])"
        by (rule Cons.IH) simp
      with no False show ?thesis by (simp add: Let_def)
    qed
  qed
qed

lemma wrap_lines_loop: "wrap_lines m width text = lines_loop m width (split_ws text) []"
  using wrap_loop_texts [of "\<lparr>tspan_x = 0, tspan_dy = 0, tspan_text = []\<rparr>" "[]" m width "split_ws text" "[]"]
  by (simp add: wrap_lines_def wrap_def)

lemma split_ws_not_Nil: "split_ws s \<noteq> []"
  by (induction s rule: split_ws.induct) (auto split: list.splits)

lemma split_ws_no_space: "list_all no_space (split_ws s)"
  by (induction s rule: split_ws.induct) (auto simp: no_space_def split: list.splits)

lemma split_ws_hd: "hd (split_ws s) = [] \<longleftrightarrow> s = [] \<or> is_space (hd s)"
proof (induction s rule: split_ws.induct)
  case 1
  then show ?case by simp
next
  case (2 c cs)
  then show ?case
    using split_ws_not_Nil [of cs] by (auto split: list.splits)
qed

lemma split_ws_inner: "[] \<notin> set (butlast (tl (split_ws s)))"
proof (induction s rule: split_ws.induct)
  case 1
  then show ?case by simp
next
  case (2 c cs)
  show ?case
  proof (cases "is_space c")
    case True
    show ?thesis
    proof (cases "cs \<noteq> [] \<and> is_space (hd cs)")
      case True
      with 2 \<open>is_space c\<close> show ?thesis by simp
    next
      case False
      obtain w ws where sp: "split_ws cs = w # ws"
        using split_ws_not_Nil [of cs] by (cases "split_ws cs") auto
      show ?thesis
      proof (cases "cs = []")
        case True
        with \<open>is_space c\<close> show ?thesis by simp
      next
        case ne: False
        with False have "\<not> is_space (hd cs)" by simp
        with ne split_ws_hd [of cs] sp have "w \<noteq> []" by auto
        moreover from 2(2) [OF \<open>is_space c\<close> False] sp have "[] \<notin> set (butlast ws)" by simp
        ultimately show ?thesis
          using \<open>is_space c\<close> False sp by (auto simp: butlast.simps)
      qed
    qed
  next
    case False
    obtain w ws where sp: "split_ws cs = w # ws"
      using split_ws_not_Nil [of cs] by (cases "split_ws cs") auto
    with 2(3) [OF False] False show ?thesis by simp
  qed
qed

lemma split_ws_prefix:
  "no_space w \<Longrightarrow> split_ws (w @ s) = (w @ hd (split_ws s)) # tl (split_ws s)"
proof (induction w)
  case Nil
  then show ?case using split_ws_not_Nil [of s] by simp
next
  case (Cons c w)
  then have "\<not> is_space c" and "no_space w" by (simp_all add: no_space_def)
  with Cons.IH show ?case by simp
qed

lemma join_Cons: "join (w # ws) = (if ws = [] then w else w @ 32 # join ws)"
  by (cases ws) simp_all

lemma join_starts_with_word:
  "is_word v \<Longrightarrow> join (v # vs) \<noteq> [] \<and> \<not> is_space (hd (join (v # vs)))"
  by (cases v) (auto simp: join_Cons is_word_def no_space_def)

lemma split_ws_join: "list_all is_word L \<Longrightarrow> L \<noteq> [] \<Longrightarrow> split_ws (join L) = L"
proof (induction L rule: join.induct)
  case 1
  then show ?case by simp
next
  case (2 w)
  then have "no_space w" by (simp add: is_word_def)
  from split_ws_prefix [OF this, of "[]"] show ?case by simp
next
  case (3 w v vs)
  then have ww: "is_word w" and v: "is_word v" and rest: "list_all is_word (v # vs)"
    by simp_all
  from ww have w: "no_space w" by (simp add: is_word_def)
  have ih: "split_ws (join (v # vs)) = v # vs"
    using 3 by simp
  have sp: "is_space 32" by (simp add: is_space_def)
  from join_starts_with_word [OF v, of vs]
  have "split_ws (32 # join (v # vs)) = [] # split_ws (join (v # vs))"
    using sp by (cases "join (v # vs)") auto
  with ih have "split_ws (32 # join (v # vs)) = [] # v # vs" by simp
  with split_ws_prefix [OF w, of "32 # join (v # vs)"] show ?case by simp
qed

lemma filter_words: "list_all is_word L \<Longrightarrow> filter (\<lambda>w. w \<noteq> []) L = L"
  by (induction L) (auto simp: is_word_def)

lemma words_of_join: "list_all is_word L \<Longrightarrow> words_of (join L) = L"
proof (cases "L = []")
  case True
  then show ?thesis by (simp add: words_of_def)
next
  case False
  assume "list_all is_word L"
  with False show ?thesis by (simp add: words_of_def split_ws_join filter_words)
qed

lemma lines_loop_content:
  "list_all is_word line \<Longrightarrow> list_all no_space ws \<Longrightarrow>
   concat (map words_of (lines_loop m width ws line)) = line @ takeWhile (\<lambda>w. w \<noteq> []) ws"
proof (induction ws arbitrary: line)
  case Nil
  then show ?case by (simp add: words_of_join)
next
  case (Cons word ws)
  show ?case
  proof (cases "word = []")
    case True
    with Cons.prems show ?thesis by (simp add: words_of_join)
  next
    case False
    with Cons.prems have "is_word word"
      by (simp add: is_word_def)
    with Cons.prems have w: "list_all is_word [word]" and l: "list_all is_word (line @ [word])"
      and r: "list_all no_space ws"
      by simp_all
    from Cons.IH [OF w r] Cons.IH [OF l r] False Cons.prems(1) show ?thesis
      by (simp add: words_of_join)
  qed
qed

lemma takeWhile_filter_inner:
  "[] \<notin> set (butlast ws) \<Longrightarrow> takeWhile (\<lambda>w. w \<noteq> []) ws = filter (\<lambda>w. w \<noteq> []) ws"
  by (induction ws) (auto split: if_splits)

lemma processed_words:
  assumes "s = [] \<or> \<not> is_space (hd s)"
  shows "takeWhile (\<lambda>w. w \<noteq> []) (split_ws s) = words_of s"
proof (cases "s = []")
  case True
  then show ?thesis by (simp add: words_of_def)
next
  case False
  with assms split_ws_hd [of s] have h: "hd (split_ws s) \<noteq> []" by simp
  obtain w ws where sp: "split_ws s = w # ws"
    using split_ws_not_Nil [of s] by (cases "split_ws s") auto
  with h have "w \<noteq> []" by simp
  moreover from split_ws_inner [of s] sp have "[] \<notin> set (butlast ws)" by simp
  ultimately show ?thesis
    using sp by (simp add: words_of_def takeWhile_filter_inner)
qed

lemma in_join: "v \<in> set L \<Longrightarrow> \<exists>a b. join L = a @ v @ b"
proof (induction L rule: join.induct)
  case 1
  then show ?case by simp
next
  case (2 w)
  then have "join [w] = [] @ v @ []" by simp
  then show ?case by blast
next
  case (3 w u us)
  show ?case
  proof (cases "v = w")
    case True
    then have "join (w # u # us) = [] @ v @ (32 # join (u # us))" by simp
    then show ?thesis by blast
  next
    case False
    with 3 obtain a b where "join (u # us) = a @ v @ b" by auto
    then have "join (w # u # us) = (w @ 32 # a) @ v @ b" by simp
    then show ?thesis by blast
  qed
qed

lemma join_words_not_Nil: "list_all is_word L \<Longrightarrow> L \<noteq> [] \<Longrightarrow> join L \<noteq> []"
  using join_starts_with_word by (cases L) auto

lemma lines_loop_not_Nil: "lines_loop m width ws line \<noteq> []"
  by (induction ws arbitrary: line) auto

lemma lines_loop_no_empty:
  "list_all is_word line \<Longrightarrow> line \<noteq> [] \<Longrightarrow> list_all no_space ws \<Longrightarrow>
   [] \<notin> set (lines_loop m width ws line)"
proof (induction ws arbitrary: line)
  case Nil
  then show ?case using join_words_not_Nil [of line] by auto
next
  case (Cons word ws)
  show ?case
  proof (cases "word = []")
    case True
    with Cons.prems show ?thesis using join_words_not_Nil [of line] by auto
  next
    case False
    with Cons.prems have iw: "is_word word" and r: "list_all no_space ws"
      by (simp_all add: is_word_def)
    have a: "[] \<notin> set (lines_loop m width ws [word])"
      using Cons.IH [of "[word]"] iw r by simp
    have b: "[] \<notin> set (lines_loop m width ws (line @ [word]))"
      using Cons.IH [of "line @ [word]"] iw r Cons.prems(1) by simp
    from a b False Cons.prems(1,2) show ?thesis
      using join_words_not_Nil [of line] by auto
  qed
qed

lemma wrap_lines_first:
  "[] \<notin> set (tl (wrap_lines m width s)) \<and>
   (hd (wrap_lines m width s) = [] \<longleftrightarrow>
      hd (split_ws s) = [] \<or> width < m (hd (split_ws s)))"
proof -
  obtain w ws where sp: "split_ws s = w # ws"
    using split_ws_not_Nil [of s] by (cases "split_ws s") auto
  from split_ws_no_space [of s] sp have nw: "no_space w" and r: "list_all no_space ws"
    by simp_all
  show ?thesis
  proof (cases "w = []")
    case True
    with sp show ?thesis by (simp add: wrap_lines_loop)
  next
    case False
    with nw have iw: "list_all is_word [w]" by (simp add: is_word_def)
    from lines_loop_no_empty [OF iw _ r, of m width]
    have ne: "[] \<notin> set (lines_loop m width ws [w])" by simp
    then have "hd (lines_loop m width ws [w]) \<noteq> []" and "[] \<notin> set (tl (lines_loop m width ws [w]))"
      using lines_loop_not_Nil [of m width ws "[w]"]
      by (cases "lines_loop m width ws [w]"; auto)+
    with ne False sp show ?thesis by (simp add: wrap_lines_loop)
  qed
qed

lemma hd_words_of:
  assumes "s \<noteq> []" and "\<not> is_space (hd s)"
  shows "words_of s \<noteq> [] \<and> hd (words_of s) = hd (split_ws s) \<and> hd (split_ws s) \<noteq> []"
proof -
  obtain w ws where sp: "split_ws s = w # ws"
    using split_ws_not_Nil [of s] by (cases "split_ws s") auto
  with assms split_ws_hd [of s] have "w \<noteq> []" by auto
  with sp show ?thesis by (simp add: words_of_def)
qed

text \<open>
  Every fragment is the join of a list of words, each beginning of which, from two words
  on, fits the width.
\<close>

lemma lines_loop_fragments:
  "list_all is_word line \<Longrightarrow> list_all no_space ws \<Longrightarrow>
   \<forall>k. 2 \<le> k \<and> k \<le> length line \<longrightarrow> m (join (take k line)) \<le> width \<Longrightarrow>
   f \<in> set (lines_loop m width ws line) \<Longrightarrow>
   \<exists>L. f = join L \<and> list_all is_word L \<and>
       (\<forall>k. 2 \<le> k \<and> k \<le> length L \<longrightarrow> m (join (take k L)) \<le> width)"
proof (induction ws arbitrary: line)
  case Nil
  then show ?case by auto
next
  case (Cons word ws)
  show ?case
  proof (cases "word = []")
    case True
    with Cons.prems show ?thesis by auto
  next
    case False
    with Cons.prems have iw: "is_word word" and r: "list_all no_space ws"
      by (simp_all add: is_word_def)
    show ?thesis
    proof (cases "m (join (line @ [word])) > width")
      case True
      with False Cons.prems(4) have "f = join line \<or> f \<in> set (lines_loop m width ws [word])"
        by simp
      then show ?thesis
      proof
        assume "f = join line"
        with Cons.prems show ?thesis by blast
      next
        assume "f \<in> set (lines_loop m width ws [word])"
        with Cons.IH [of "[word]"] iw r show ?thesis by simp
      qed
    next
      case no: False
      with False Cons.prems(4) have f: "f \<in> set (lines_loop m width ws (line @ [word]))"
        by simp
      have good: "list_all is_word (line @ [word])"
        using Cons.prems(1) iw by simp
      have fits: "m (join (take k (line @ [word]))) \<le> width"
        if "2 \<le> k \<and> k \<le> length (line @ [word])" for k
      proof (cases "k \<le> length line")
        case True
        with that Cons.prems(3) show ?thesis by simp
      next
        case False
        with that have "take k (line @ [word]) = line @ [word]" by simp
        with no show ?thesis by simp
      qed
      from Cons.IH [OF good r _ f] fits show ?thesis by blast
    qed
  qed
qed

text \<open>The first fragment starts with the words of the line in progress.\<close>

lemma lines_loop_hd:
  "list_all is_word line \<Longrightarrow> list_all no_space ws \<Longrightarrow>
   \<exists>ks. hd (lines_loop m width ws line) = join (line @ ks) \<and> list_all is_word ks"
proof (induction ws arbitrary: line)
  case Nil
  have "hd (lines_loop m width [] line) = join (line @ []) \<and> list_all is_word []" by simp
  then show ?case by blast
next
  case (Cons word ws)
  show ?case
  proof (cases "word = [] \<or> m (join (line @ [word])) > width")
    case True
    then have "hd (lines_loop m width (word # ws) line) = join (line @ []) \<and> list_all is_word []"
      by auto
    then show ?thesis by blast
  next
    case False
    with Cons.prems have iw: "is_word word" and r: "list_all no_space ws"
      by (simp_all add: is_word_def)
    with Cons.prems(1) have "list_all is_word (line @ [word])" by simp
    from Cons.IH [OF this r] obtain ks where
      ks: "hd (lines_loop m width ws (line @ [word])) = join ((line @ [word]) @ ks)"
        "list_all is_word ks"
      by blast
    with False iw have "hd (lines_loop m width (word # ws) line) = join (line @ (word # ks)) \<and>
        list_all is_word (word # ks)"
      by simp
    then show ?thesis by blast
  qed
qed

text \<open>
  A break is made only on overflow: a fragment followed by the first word of the next one
  measures more than the width.
\<close>

lemma lines_loop_breaks:
  "list_all is_word line \<Longrightarrow> list_all no_space ws \<Longrightarrow>
   Suc i < length (lines_loop m width ws line) \<Longrightarrow>
   width < m (join (words_of (lines_loop m width ws line ! i) @
                    [hd (words_of (lines_loop m width ws line ! Suc i))]))"
proof (induction ws arbitrary: line i)
  case Nil
  then show ?case by simp
next
  case (Cons word ws)
  show ?case
  proof (cases "word = []")
    case True
    with Cons.prems show ?thesis by simp
  next
    case False
    with Cons.prems have iw: "is_word word" and r: "list_all no_space ws"
      by (simp_all add: is_word_def)
    show ?thesis
    proof (cases "m (join (line @ [word])) > width")
      case True
      let ?R = "lines_loop m width ws [word]"
      have R: "lines_loop m width (word # ws) line = join line # ?R"
        using True False by simp
      have one: "list_all is_word [word]" using iw by simp
      show ?thesis
      proof (cases i)
        case 0
        from lines_loop_hd [OF one r, of m width] obtain ks where
          ks: "hd ?R = join ([word] @ ks)" "list_all is_word ks"
          by blast
        have "?R \<noteq> []" by (rule lines_loop_not_Nil)
        then have "?R ! 0 = hd ?R" by (simp add: hd_conv_nth)
        with ks iw have "words_of (?R ! 0) = word # ks"
          using words_of_join [of "word # ks"] by simp
        with 0 R True Cons.prems(1) show ?thesis
          by (simp add: words_of_join)
      next
        case (Suc j)
        with Cons.prems(3) R have "Suc j < length ?R" by simp
        from Cons.IH [OF one r this] Suc R show ?thesis by simp
      qed
    next
      case no: False
      have good: "list_all is_word (line @ [word])"
        using Cons.prems(1) iw by simp
      from no False Cons.prems(3) have "Suc i < length (lines_loop m width ws (line @ [word]))"
        by simp
      from Cons.IH [OF good r this] no False show ?thesis by simp
    qed
  qed
qed

text \<open>
  C3 (as amended). For every text that does not start with whitespace, every width and
  every measure: each fragment is its words joined by single spaces, and the words of the
  fragments, in order, are the words of the text. The loop commits the current line
  exactly when the tentative line measures more than the width, also when the current line
  is still empty: every beginning of two or more words of a fragment, the whole fragment
  included, measures at most the width; a fragment followed by the first word of the next
  fragment measures more than the width; the first fragment is empty exactly when the text
  has no word or its first word alone measures more than the width; and no later fragment
  is empty. When the measure of a text is never below that of a part of it, a word wider
  than the width stands alone on its line.
\<close>

theorem wrap_greedy:
  assumes "s = [] \<or> \<not> is_space (hd s)"
  shows "concat (map words_of (wrap_lines m width s)) = words_of s \<and>
    (\<forall>f\<in>set (wrap_lines m width s).
       f = join (words_of f) \<and>
       (\<forall>k. 2 \<le> k \<and> k \<le> length (words_of f) \<longrightarrow>
            m (join (take k (words_of f))) \<le> width)) \<and>
    (\<forall>i. Suc i < length (wrap_lines m width s) \<longrightarrow>
       width < m (join (words_of (wrap_lines m width s ! i) @
                        [hd (words_of (wrap_lines m width s ! Suc i))]))) \<and>
    (hd (wrap_lines m width s) = [] \<longleftrightarrow>
       words_of s = [] \<or> width < m (hd (words_of s))) \<and>
    [] \<notin> set (tl (wrap_lines m width s)) \<and>
    ((\<forall>a t b. m t \<le> m (a @ t @ b)) \<longrightarrow>
       (\<forall>f\<in>set (wrap_lines m width s). \<forall>v\<in>set (words_of f). width < m v \<longrightarrow> f = v))"
proof -
  have pieces: "list_all no_space (split_ws s)"
    by (rule split_ws_no_space)
  have frag: "\<exists>L. f = join L \<and> list_all is_word L \<and>
      (\<forall>k. 2 \<le> k \<and> k \<le> length L \<longrightarrow> m (join (take k L)) \<le> width)"
    if "f \<in> set (wrap_lines m width s)" for f
    using lines_loop_fragments [of "[]" "split_ws s" m width f] that pieces
    by (simp add: wrap_lines_loop)
  have "concat (map words_of (lines_loop m width (split_ws s) []))
          = [] @ takeWhile (\<lambda>w. w \<noteq> []) (split_ws s)"
    by (rule lines_loop_content) (simp_all add: pieces)
  with processed_words [OF assms]
  have content: "concat (map words_of (wrap_lines m width s)) = words_of s"
    by (simp add: wrap_lines_loop)
  have shape: "f = join (words_of f) \<and>
      (\<forall>k. 2 \<le> k \<and> k \<le> length (words_of f) \<longrightarrow> m (join (take k (words_of f))) \<le> width)"
    if "f \<in> set (wrap_lines m width s)" for f
  proof -
    from frag [OF that] obtain L where L: "f = join L" "list_all is_word L"
      "\<forall>k. 2 \<le> k \<and> k \<le> length L \<longrightarrow> m (join (take k L)) \<le> width"
      by blast
    from L(1,2) have "words_of f = L" by (simp add: words_of_join)
    with L show ?thesis by simp
  qed
  have breaks: "width < m (join (words_of (wrap_lines m width s ! i) @
                        [hd (words_of (wrap_lines m width s ! Suc i))]))"
    if "Suc i < length (wrap_lines m width s)" for i
    using lines_loop_breaks [of "[]" "split_ws s" i m width] that pieces
    by (simp add: wrap_lines_loop)
  have first: "hd (wrap_lines m width s) = [] \<longleftrightarrow>
       words_of s = [] \<or> width < m (hd (words_of s))"
  proof (cases "s = []")
    case True
    then show ?thesis by (simp add: wrap_lines_loop words_of_def)
  next
    case False
    with assms hd_words_of [of s] wrap_lines_first [of m width s] show ?thesis by auto
  qed
  have later: "[] \<notin> set (tl (wrap_lines m width s))"
    using wrap_lines_first [of m width s] by simp
  have alone: "f = v"
    if mono: "\<forall>a t b. m t \<le> m (a @ t @ b)"
      and f: "f \<in> set (wrap_lines m width s)" and v: "v \<in> set (words_of f)"
      and wide: "width < m v" for f v
  proof -
    from frag [OF f] obtain L where L: "f = join L" "list_all is_word L"
      "\<forall>k. 2 \<le> k \<and> k \<le> length L \<longrightarrow> m (join (take k L)) \<le> width"
      by blast
    from v L(1,2) have vL: "v \<in> set L" by (simp add: words_of_join)
    show ?thesis
    proof (cases "length L \<le> 1")
      case True
      with vL have "L = [v]" by (cases L) auto
      with L(1) show ?thesis by simp
    next
      case False
      with L(3) [rule_format, of "length L"] have "m (join L) \<le> width" by simp
      moreover from in_join [OF vL] obtain a b where "join L = a @ v @ b" by blast
      with mono have "m v \<le> m (join L)" by simp
      ultimately show ?thesis using wide by simp
    qed
  qed
  show ?thesis
    using content shape breaks first later alone by blast
qed

theorem wrap_greedy_witness:
  "concat (map words_of
      (wrap_lines (\<lambda>s. real (length s) * 10) 60 (js ''internationalisation of labels'')))
     = words_of (js ''internationalisation of labels'') \<and>
   hd (wrap_lines (\<lambda>s. real (length s) * 10) 60 (js ''internationalisation of labels'')) = [] \<and>
   [] \<notin> set (tl (wrap_lines (\<lambda>s. real (length s) * 10) 60
                     (js ''internationalisation of labels''))) \<and>
   wrap_lines (\<lambda>s. real (length s) * 10) 60 (js ''internationalisation of labels'')
     = [[], js ''internationalisation'', js ''of'', js ''labels'']"
proof -
  let ?t = "js ''internationalisation of labels''"
  let ?m = "\<lambda>s::jsstring. real (length s) * 10"
  have ev: "wrap_lines ?m 60 ?t = [[], js ''internationalisation'', js ''of'', js ''labels'']"
    by (simp add: wrap_lines_def wrap_def is_space_def lineHeight_def js_def)
  have nolead: "?t = [] \<or> \<not> is_space (hd ?t)"
    by (simp add: is_space_def js_def)
  have mono: "\<forall>a t b. ?m t \<le> ?m (a @ t @ b)"
    by simp
  from wrap_greedy [OF nolead, of ?m 60] mono
  have "concat (map words_of (wrap_lines ?m 60 ?t)) = words_of ?t \<and>
     [] \<notin> set (tl (wrap_lines ?m 60 ?t)) \<and>
     (\<forall>f\<in>set (wrap_lines ?m 60 ?t). \<forall>v\<in>set (words_of f). 60 < ?m v \<longrightarrow> f = v)"
    by blast
  with ev show ?thesis by simp
qed

text \<open>
  A first word that is too wide leaves an empty line before it; a text that starts with
  whitespace (a space, or the no-break space U+00A0) loses all its words, the first piece
  of the split being the empty string; and under a measure that shrinks as a text grows a
  word that is too wide shares its line.
\<close>

theorem wrap_empty_line_and_lost_words:
  "wrap_lines (\<lambda>s. real (length s) * 10) 60 (js ''internationalisation'')
     = [[], js ''internationalisation''] \<and>
   wrap_lines (\<lambda>s. real (length s) * 10) 60 (js '' a b'') = [[]] \<and>
   words_of (js '' a b'') = [js ''a'', js ''b''] \<and>
   wrap_lines (\<lambda>s. real (length s) * 10) 60 (160 # js ''a b'') = [[]] \<and>
   words_of (160 # js ''a b'') = [js ''a'', js ''b''] \<and>
   wrap_lines (\<lambda>s. if s = js ''aa'' then 100 else 0) 50 (js ''aa b'') = [[], js ''aa b'']"
  by (simp add: wrap_lines_def wrap_def words_of_def is_space_def lineHeight_def js_def)

section \<open>Wrapping: the two scenarios\<close>

text \<open>
  C8. With a measure of 10 pixels per character, wrapping \<open>hello world foo\<close> to 60
  pixels gives one word per line, and wrapping \<open>a b c d\<close> to 100 pixels gives the single
  line \<open>a b c d\<close>.
\<close>

theorem wrap_scenarios:
  "wrap_lines (\<lambda>s. real (length s) * 10) 60 (js ''hello world foo'')
     = [js ''hello'', js ''world'', js ''foo''] \<and>
   wrap_lines (\<lambda>s. real (length s) * 10) 100 (js ''a b c d'') = [js ''a b c d'']"
  by (simp add: wrap_lines_def wrap_def is_space_def lineHeight_def js_def)

section \<open>Where the fragments of a category label are placed\<close>

lemma wrap_loop_x:
  "tspan_x tsp = 0 \<Longrightarrow> list_all (\<lambda>t. tspan_x t = 0) out \<Longrightarrow>
   list_all (\<lambda>t. tspan_x t = 0) (wrap_loop m width ws line tsp out)"
  by (induction ws arbitrary: line tsp out) (simp_all add: Let_def)

text \<open>
  C7. A category label is a text element anchored at its end, at x = 90 (the left margin
  less 10) and at the y-coordinate of its point; its fragments follow each other at a line
  height of 1.2 em. Each fragment, however, carries its own x = 0, so the fragments are
  placed at the left edge of the surface and not under the anchor of the label.
\<close>

theorem category_label_fragments_at_zero:
  "categoryLabels fixed_metrics
     [\<lparr>Categories = js ''North East Region'', Value1 = Num 1, Value2 = Num 2\<rparr>] 330 290
   = [Text ''categoryLabels'' (Num 90) (Some 160) ''end'' None None False
        (Tspans [\<lparr>tspan_x = 0, tspan_dy = 0, tspan_text = js ''North East''\<rparr>,
                 \<lparr>tspan_x = 0, tspan_dy = 6 / 5, tspan_text = js ''Region''\<rparr>])]"
  by (simp add: categoryLabels_def yScale_def scalePoint_def ordinal_domain_def insert_new_def
      margin_left_def margin_top_def margin_bottom_def wrap_def is_space_def lineHeight_def
      fixed_metrics_def js_def)

section \<open>A measure that is not a number\<close>

text \<open>
  C9. When the first measure of a data point does not coerce to a number, its value is
  \<open>NaN\<close> and the render returns normally with all seven primitives of the point, the
  horizontal coordinates that depend on the value being \<open>NaN\<close>. The sample input has
  such a point.
\<close>

theorem nan_point_still_drawn:
  assumes "2 \<le> length vs"
    and "data = extract_data rt (col_values c0) (col_values (vs ! 0)) (col_values (vs ! 1))"
    and "n = length data" and "i < n"
    and "toNumber rt (at_index (col_values (vs ! 0)) i) = NaN"
  shows "\<exists>ps. update rt \<lparr>opt_viewport = vp,
             dataViews = \<lparr>dv_categorical = Some \<lparr>categories = Some (c0 # cs), cat_values = Some vs\<rparr>\<rparr> # rest\<rparr>
             = Inr ps \<and>
           length ps = 7 * n \<and> Value1 (data ! i) = NaN \<and>
           is_Line (ps ! i) \<and> x2 (ps ! i) = NaN \<and>
           is_Line (ps ! (n + i)) \<and> x1 (ps ! (n + i)) = NaN \<and>
           is_Circle (ps ! (2 * n + i)) \<and> cx (ps ! (2 * n + i)) = NaN \<and>
           is_Circle (ps ! (3 * n + i)) \<and>
           is_Text (ps ! (4 * n + i)) \<and> tx (ps ! (4 * n + i)) = NaN \<and>
             content (ps ! (4 * n + i)) = NumberText NaN \<and>
           is_Text (ps ! (5 * n + i)) \<and>
           is_Text (ps ! (6 * n + i))"
proof -
  let ?ps = "layout rt (vp_width vp) (vp_height vp) data"
  have u: "update rt \<lparr>opt_viewport = vp,
             dataViews = \<lparr>dv_categorical = Some \<lparr>categories = Some (c0 # cs), cat_values = Some vs\<rparr>\<rparr> # rest\<rparr>
           = Inr ?ps"
    using assms(1,2) by (simp add: update_options_of)
  have len: "length ?ps = 7 * n"
    using assms(3) by (simp add: layout_length)
  have i: "i < length (col_values c0)"
    using assms(2,3,4) by (simp add: length_extract_data)
  have v: "Value1 (data ! i) = NaN"
    using assms(2,5) i by (simp add: extract_data_def)
  have pt: "is_Line (?ps ! i) \<and> x2 (?ps ! i) = NaN \<and>
           is_Line (?ps ! (n + i)) \<and> x1 (?ps ! (n + i)) = NaN \<and>
           is_Circle (?ps ! (2 * n + i)) \<and> cx (?ps ! (2 * n + i)) = NaN \<and>
           is_Circle (?ps ! (3 * n + i)) \<and>
           is_Text (?ps ! (4 * n + i)) \<and> tx (?ps ! (4 * n + i)) = NaN \<and>
             content (?ps ! (4 * n + i)) = NumberText NaN \<and>
           is_Text (?ps ! (5 * n + i)) \<and>
           is_Text (?ps ! (6 * n + i))"
    using assms(3,4) v
    by (simp add: layout_nth horizontalGridlines_def linesV1V2_def circles1_def circles2_def
        value1Labels_def value2Labels_def categoryLabels_def xScale_NaN)
  show ?thesis
    using u len v pt by blast
qed

theorem nan_point_still_drawn_witness:
  "toNumber fixed_metrics (at_index (col_values (sample_measures ! 0)) 2) = NaN \<and>
   (\<exists>ps. update fixed_metrics
       (options_of \<lparr>vp_width = 330, vp_height = 290\<rparr> [sample_categories] sample_measures) = Inr ps \<and>
     length ps = 21 \<and> x2 (ps ! 2) = NaN \<and> x1 (ps ! 5) = NaN \<and> cx (ps ! 8) = NaN \<and>
     tx (ps ! 14) = NaN)"
proof -
  have two: "2 \<le> length sample_measures"
    by (simp add: sample_measures_def)
  have nan: "toNumber fixed_metrics (at_index (col_values (sample_measures ! 0)) 2) = NaN"
    by (simp add: sample_measures_def at_index_def fixed_metrics_def)
  have i: "(2::nat) < 3" by simp
  from nan_point_still_drawn [OF two refl _ i nan, of sample_categories
      "\<lparr>vp_width = 330, vp_height = 290\<rparr>" "[]" "[]"] nan
  show ?thesis
    by (auto simp: options_of_def length_extract_data sample_categories_def)
qed

section \<open>Endpoints of gridlines and connectors\<close>

text \<open>
  C10. The gridline of a data point runs from the left margin to the scaled first value
  minus the circle radius, and its connector from the scaled first value plus the radius
  to the scaled second value minus the radius; nothing is clamped. When the first value
  is 0 and the greatest value is positive, the gridline ends at the left margin minus the
  radius, to the left of where it starts.
\<close>

theorem endpoints_not_clamped:
  assumes "2 \<le> length vs"
    and "data = extract_data rt (col_values c0) (col_values (vs ! 0)) (col_values (vs ! 1))"
    and "n = length data" and "i < n"
  shows "\<exists>ps. update rt \<lparr>opt_viewport = vp,
             dataViews = \<lparr>dv_categorical = Some \<lparr>categories = Some (c0 # cs), cat_values = Some vs\<rparr>\<rparr> # rest\<rparr>
             = Inr ps \<and>
           x1 (ps ! i) = Num margin_left \<and>
           x2 (ps ! i) = nminus (xScale data (vp_width vp) (Value1 (data ! i))) (Num circleRadius) \<and>
           x1 (ps ! (n + i)) = nplus (xScale data (vp_width vp) (Value1 (data ! i))) (Num circleRadius) \<and>
           x2 (ps ! (n + i)) = nminus (xScale data (vp_width vp) (Value2 (data ! i))) (Num circleRadius) \<and>
           (Value1 (data ! i) = Num 0 \<and> maxValue data = Num m \<and> 0 < m \<longrightarrow>
              x2 (ps ! i) = Num (margin_left - circleRadius) \<and>
              margin_left - circleRadius < margin_left)"
proof -
  let ?ps = "layout rt (vp_width vp) (vp_height vp) data"
  have u: "update rt \<lparr>opt_viewport = vp,
             dataViews = \<lparr>dv_categorical = Some \<lparr>categories = Some (c0 # cs), cat_values = Some vs\<rparr>\<rparr> # rest\<rparr>
           = Inr ?ps"
    using assms(1,2) by (simp add: update_options_of)
  have pt: "x1 (?ps ! i) = Num margin_left \<and>
           x2 (?ps ! i) = nminus (xScale data (vp_width vp) (Value1 (data ! i))) (Num circleRadius) \<and>
           x1 (?ps ! (n + i)) = nplus (xScale data (vp_width vp) (Value1 (data ! i))) (Num circleRadius) \<and>
           x2 (?ps ! (n + i)) = nminus (xScale data (vp_width vp) (Value2 (data ! i))) (Num circleRadius)"
    using assms(3,4) by (simp add: layout_nth horizontalGridlines_def linesV1V2_def)
  have left: "x2 (?ps ! i) = Num (margin_left - circleRadius) \<and>
              margin_left - circleRadius < margin_left"
    if "Value1 (data ! i) = Num 0 \<and> maxValue data = Num m \<and> 0 < m"
    using that pt by (simp add: xScale_def circleRadius_def)
  show ?thesis
    using u pt left by blast
qed

theorem endpoints_not_clamped_witness:
  "\<exists>ps. update fixed_metrics
       (options_of \<lparr>vp_width = 330, vp_height = 290\<rparr> [sample_categories] sample_measures) = Inr ps \<and>
     x1 (ps ! 0) = Num 100 \<and> x2 (ps ! 0) = Num 86 \<and>
     x1 (ps ! 3) = Num 114 \<and> x2 (ps ! 3) = Num 286"
proof -
  let ?data = "extract_data fixed_metrics (col_values sample_categories)
                 (col_values (sample_measures ! 0)) (col_values (sample_measures ! 1))"
  have two: "2 \<le> length sample_measures"
    by (simp add: sample_measures_def)
  have n: "length ?data = 3"
    by (simp add: length_extract_data sample_categories_def)
  have i: "(0::nat) < 3" by simp
  have v1: "Value1 (?data ! 0) = Num 0" and v2: "Value2 (?data ! 0) = Num 10"
    by (simp_all add: extract_data_def sample_categories_def sample_measures_def at_index_def
        upt_rec)
  have mx: "maxValue ?data = Num 10"
    by (simp add: maxValue_def extract_data_def sample_categories_def sample_measures_def
        at_index_def fixed_metrics_def upt_rec)
  from endpoints_not_clamped [OF two refl n [symmetric] i, of "\<lparr>vp_width = 330, vp_height = 290\<rparr>"
      "[]" "[]" 10] v1 v2 mx
  show ?thesis
    by (auto simp: options_of_def xScale_def margin_left_def margin_right_def circleRadius_def)
qed

end
